theory Spec2Isabelle
  imports Main "HOL-Library.Word"
begin

unbundle bit_operations_syntax

section \<open>Data model of arena_allocator.h\<close>

text \<open>
  The header is modelled for an LP64 target: \<open>size_t\<close> and pointers are 64-bit words, so
  all size and address arithmetic wraps as it does in C. The store holds the \<open>Arena\<close>
  objects of the caller, the \<open>Region\<close> headers that sit at the start of each live mapping,
  and the other bytes of memory. A \<open>Region *\<close> or \<open>Arena *\<close> that is dereferenced while
  nothing of that type lives there ends the call with \<open>Segfault\<close>; a failing \<open>assert\<close> ends
  it with \<open>Assertion_failed\<close> and the text of the asserted condition.
\<close>

type_synonym size_t = "64 word"
type_synonym ptr = "64 word"
type_synonym byte = "8 word"

abbreviation NULL :: ptr where
  "NULL \<equiv> 0"

abbreviation MAP_FAILED :: ptr where
  "MAP_FAILED \<equiv> - 1"

record Region =
  "next" :: ptr
  capacity :: size_t
  count :: size_t
  remaining :: size_t
  bytes :: ptr

record Arena =
  head :: ptr
  tail :: ptr

datatype error = Assertion_failed string | Segfault

text \<open>
  \<open>page_size\<close> is what \<open>sysconf(_SC_PAGESIZE)\<close> answers. \<open>mmap_calls\<close> counts the calls
  of \<open>mmap\<close> made so far; the program never reads it. \<open>regions\<close> holds the header of each
  live mapping under the address of the mapping. The header occupies the first
  \<open>sizeof(Region)\<close> bytes of the mapping, so a load or store through an
  \<open>unsigned char *\<close> that falls on one of these addresses reads or changes the header
  (\<open>load_byte\<close> and \<open>store_byte\<close> below). \<open>mem\<close> holds every other byte; it is total and
  does not record which addresses are mapped.
\<close>

record state =
  page_size :: size_t
  arenas :: "ptr \<rightharpoonup> Arena"
  regions :: "ptr \<rightharpoonup> Region"
  mem :: "ptr \<Rightarrow> byte"
  mmap_calls :: nat

text \<open>
  \<open>sizeof(Region)\<close>: two 8-byte pointers and three 8-byte \<open>size_t\<close> fields, no padding.
  \<open>ARENA_REGION_DEFAULT_CAPACITY\<close> is the value the header gives it when the including
  file has not defined it.
\<close>

definition ARENA_REGION_SIZE :: size_t where
  "ARENA_REGION_SIZE = 40"

definition ARENA_PAGE_SIZE :: "state \<Rightarrow> size_t" where
  "ARENA_PAGE_SIZE s = page_size s"

definition ARENA_REGION_DEFAULT_CAPACITY :: "state \<Rightarrow> size_t" where
  "ARENA_REGION_DEFAULT_CAPACITY s = ARENA_PAGE_SIZE s * 2"

section \<open>Bytes of memory\<close>

text \<open>
  Byte \<open>j\<close> of a 64-bit field, least significant byte first (the byte order of x86-64
  and of AArch64 as Linux runs it).
\<close>

definition get_byte :: "64 word \<Rightarrow> nat \<Rightarrow> byte" where
  "get_byte w j = ucast (drop_bit (8 * j) w)"

definition set_byte :: "64 word \<Rightarrow> nat \<Rightarrow> byte \<Rightarrow> 64 word" where
  "set_byte w j v = (w AND NOT (push_bit (8 * j) (mask 8))) OR push_bit (8 * j) (ucast v)"

text \<open>
  Byte \<open>k\<close> of a \<open>Region\<close> header: \<open>next\<close> is at offset 0, \<open>capacity\<close> at 8, \<open>count\<close> at 16,
  \<open>remaining\<close> at 24 and \<open>bytes\<close> at 32.
\<close>

definition header_byte :: "Region \<Rightarrow> nat \<Rightarrow> byte" where
  "header_byte r k =
     (if k < 8 then get_byte (next r) k
      else if k < 16 then get_byte (capacity r) (k - 8)
      else if k < 24 then get_byte (count r) (k - 16)
      else if k < 32 then get_byte (remaining r) (k - 24)
      else get_byte (bytes r) (k - 32))"

definition header_update :: "Region \<Rightarrow> nat \<Rightarrow> byte \<Rightarrow> Region" where
  "header_update r k v =
     (if k < 8 then r\<lparr>next := set_byte (next r) k v\<rparr>
      else if k < 16 then r\<lparr>capacity := set_byte (capacity r) (k - 8) v\<rparr>
      else if k < 24 then r\<lparr>count := set_byte (count r) (k - 16) v\<rparr>
      else if k < 32 then r\<lparr>remaining := set_byte (remaining r) (k - 24) v\<rparr>
      else r\<lparr>bytes := set_byte (bytes r) (k - 32) v\<rparr>)"

text \<open>
  \<open>header_at s a\<close>: the live mapping whose header holds the address \<open>a\<close>, that is the
  nearest address \<open>p\<close> at or below \<open>a\<close> with a header in \<open>regions\<close> and
  \<open>a - p < sizeof(Region)\<close>.
\<close>

definition header_at :: "state \<Rightarrow> ptr \<Rightarrow> ptr option" where
  "header_at s a =
     find (\<lambda>p. regions s p \<noteq> None) (map (\<lambda>k. a - of_nat k) [0..<unat ARENA_REGION_SIZE])"

definition load_byte :: "state \<Rightarrow> ptr \<Rightarrow> byte" where
  "load_byte s a =
     (case header_at s a of
        None \<Rightarrow> mem s a
      | Some p \<Rightarrow>
         (case regions s p of
            None \<Rightarrow> mem s a
          | Some r \<Rightarrow> header_byte r (unat (a - p))))"

definition store_byte :: "state \<Rightarrow> ptr \<Rightarrow> byte \<Rightarrow> state" where
  "store_byte s a v =
     (case header_at s a of
        None \<Rightarrow> s\<lparr>mem := (mem s)(a := v)\<rparr>
      | Some p \<Rightarrow>
         (case regions s p of
            None \<Rightarrow> s\<lparr>mem := (mem s)(a := v)\<rparr>
          | Some r \<Rightarrow> s\<lparr>regions := (regions s)(p \<mapsto> header_update r (unat (a - p)) v)\<rparr>))"

section \<open>The operating system\<close>

text \<open>
  \<open>mmap(NULL, len, PROT_READ | PROT_WRITE, MAP_ANONYMOUS | MAP_PRIVATE, -1, 0)\<close>: the
  kernel picks the address. Its pick is the argument \<open>answer\<close> of every operation that
  may map memory (\<open>MAP_FAILED\<close> when it refuses); a length of zero is always refused
  (\<open>EINVAL\<close>). The contents of a fresh mapping are not modelled.
\<close>

definition mmap :: "ptr \<Rightarrow> size_t \<Rightarrow> ptr" where
  "mmap answer len = (if len = 0 then MAP_FAILED else answer)"

text \<open>
  \<open>munmap(region, len)\<close> gives the mapping back, and the header that lived at its start
  with it. It answers 0, or -1 for a length of zero (\<open>EINVAL\<close>).
\<close>

definition munmap :: "ptr \<Rightarrow> size_t \<Rightarrow> state \<Rightarrow> int \<times> state" where
  "munmap p len s =
     (if len = 0 then (- 1, s) else (0, s\<lparr>regions := (regions s)(p := None)\<rparr>))"

section \<open>Private functions\<close>

definition arena__align__size :: "state \<Rightarrow> size_t \<Rightarrow> size_t" where
  "arena__align__size s sz =
     (let region_size = ARENA_REGION_SIZE;
          page_size = page_size s;
          size_bytes = region_size + sz;
          size_page_aligned = (size_bytes + page_size - 1) AND NOT (page_size - 1)
      in size_page_aligned)"

definition arena__new__region :: "ptr \<Rightarrow> size_t \<Rightarrow> state \<Rightarrow> error + ptr \<times> state" where
  "arena__new__region answer sz s =
     (let p = mmap answer sz
      in if p = MAP_FAILED then Inl (Assertion_failed ''ptr != MAP_FAILED'')
         else Inr (p, s\<lparr>regions := (regions s)(p \<mapsto>
                     \<lparr>next = NULL,
                      capacity = sz - ARENA_REGION_SIZE,
                      count = 0,
                      remaining = sz - ARENA_REGION_SIZE,
                      bytes = p + ARENA_REGION_SIZE\<rparr>),
                   mmap_calls := Suc (mmap_calls s)\<rparr>))"

definition arena__append__region :: "ptr \<Rightarrow> ptr \<Rightarrow> size_t \<Rightarrow> state \<Rightarrow> error + state" where
  "arena__append__region answer arena sz s =
     (let sz' = (if sz < ARENA_REGION_DEFAULT_CAPACITY s
                 then ARENA_REGION_DEFAULT_CAPACITY s
                 else arena__align__size s sz)
      in case arena__new__region answer sz' s of
           Inl e \<Rightarrow> Inl e
         | Inr (region, s1) \<Rightarrow>
            (case arenas s1 arena of
               None \<Rightarrow> Inl Segfault
             | Some a \<Rightarrow>
                (case regions s1 (tail a) of
                   None \<Rightarrow> Inl Segfault
                 | Some t \<Rightarrow>
                     Inr (s1\<lparr>regions := (regions s1)(tail a \<mapsto> t\<lparr>next := region\<rparr>),
                             arenas := (arenas s1)(arena \<mapsto> a\<lparr>tail := region\<rparr>)\<rparr>))))"

definition arena__free__region :: "ptr \<Rightarrow> state \<Rightarrow> error + state" where
  "arena__free__region region s =
     (if region = NULL then Inl (Assertion_failed ''region != NULL'')
      else case regions s region of
             None \<Rightarrow> Inl Segfault
           | Some r \<Rightarrow>
              (let size_bytes = ARENA_REGION_SIZE + capacity r;
                   (ret, s1) = munmap region size_bytes s
               in if ret = 0 then Inr s1 else Inl (Assertion_failed ''ret == 0'')))"

section \<open>Public functions\<close>

definition arena_init :: "ptr \<Rightarrow> ptr \<Rightarrow> size_t \<Rightarrow> state \<Rightarrow> error + state" where
  "arena_init answer arena sz s =
     (let sz' = arena__align__size s sz
      in case arena__new__region answer sz' s of
           Inl e \<Rightarrow> Inl e
         | Inr (region, s1) \<Rightarrow>
            (case arenas s1 arena of
               None \<Rightarrow> Inl Segfault
             | Some a \<Rightarrow>
                 Inr (s1\<lparr>arenas := (arenas s1)(arena \<mapsto> a\<lparr>head := region, tail := region\<rparr>)\<rparr>)))"

text \<open>
  The \<open>for\<close> loop of \<open>arena_alloc\<close>, entered at the region \<open>cur\<close>. It answers \<open>Inr (Some (ptr, s'))\<close>
  when it returns from inside the loop and \<open>Inr None\<close> when it runs off the end of the
  chain. On a chain that is a cycle of full regions the loop does not end: the value is
  \<open>None\<close>.
\<close>

partial_function (option) arena_alloc_loop ::
  "state \<Rightarrow> ptr \<Rightarrow> size_t \<Rightarrow> (error + (ptr \<times> state) option) option" where
  "arena_alloc_loop s cur sz =
     (if cur = NULL then Some (Inr None)
      else case regions s cur of
             None \<Rightarrow> Some (Inl Segfault)
           | Some r \<Rightarrow>
               if sz \<le> remaining r
               then Some (Inr (Some (bytes r + count r,
                      s\<lparr>regions := (regions s)(cur \<mapsto>
                          r\<lparr>count := count r + sz, remaining := remaining r - sz\<rparr>)\<rparr>)))
               else arena_alloc_loop s (next r) sz)"

declare arena_alloc_loop.simps [code]

definition arena_alloc :: "ptr \<Rightarrow> ptr \<Rightarrow> size_t \<Rightarrow> state \<Rightarrow> (error + ptr \<times> state) option" where
  "arena_alloc answer arena sz s =
     (if arena = NULL then Some (Inl (Assertion_failed ''arena != NULL''))
      else case arenas s arena of
             None \<Rightarrow> Some (Inl Segfault)
           | Some a \<Rightarrow>
               if head a = NULL then Some (Inl (Assertion_failed ''arena->head != NULL''))
               else (case arena_alloc_loop s (head a) sz of
                       None \<Rightarrow> None
                     | Some (Inl e) \<Rightarrow> Some (Inl e)
                     | Some (Inr (Some (p, s'))) \<Rightarrow> Some (Inr (p, s'))
                     | Some (Inr None) \<Rightarrow>
                        (case arena__append__region answer arena sz s of
                           Inl e \<Rightarrow> Some (Inl e)
                         | Inr s1 \<Rightarrow>
                            (case arenas s1 arena of
                               None \<Rightarrow> Some (Inl Segfault)
                             | Some a1 \<Rightarrow>
                                (case regions s1 (tail a1) of
                                   None \<Rightarrow> Some (Inl Segfault)
                                 | Some cur \<Rightarrow> Some (Inr (bytes cur + count cur, s1)))))))"

text \<open>
  The copy loop of \<open>arena_realloc\<close>, entered with the counter \<open>i\<close>:
  \<open>new_ptr[i] = old_ptr_char[i]\<close>.
\<close>

function arena_realloc_loop :: "ptr \<Rightarrow> ptr \<Rightarrow> size_t \<Rightarrow> size_t \<Rightarrow> state \<Rightarrow> state" where
  "arena_realloc_loop new_ptr old_ptr old_size i s =
     (if i < old_size
      then arena_realloc_loop new_ptr old_ptr old_size (i + 1)
             (store_byte s (new_ptr + i) (load_byte s (old_ptr + i)))
      else s)"
  by pat_completeness auto
termination
proof (relation "measure (\<lambda>(new_ptr, old_ptr, old_size, i, s). unat old_size - unat i)")
  show "wf (measure (\<lambda>(new_ptr, old_ptr, old_size, i, s). unat old_size - unat i))"
    by simp
next
  fix new_ptr old_ptr old_size i :: "64 word" and s :: state
  assume lt: "i < old_size"
  then have less: "unat i < unat old_size"
    by (simp add: word_less_nat_alt)
  have "unat old_size < 2 ^ LENGTH(64)"
    by (rule unsigned_less)
  with less have "unat i + unat (1 :: 64 word) < 2 ^ LENGTH(64)"
    by simp
  then have "unat (i + 1) = unat i + unat (1 :: 64 word)"
    by (simp only: unat_add_lem)
  then have "unat (i + 1) = Suc (unat i)"
    by simp
  moreover note less
  ultimately show "((new_ptr, old_ptr, old_size, i + 1,
                     store_byte s (new_ptr + i) (load_byte s (old_ptr + i))),
                    (new_ptr, old_ptr, old_size, i, s))
         \<in> measure (\<lambda>(new_ptr, old_ptr, old_size, i, s). unat old_size - unat i)"
    by simp
qed

declare arena_realloc_loop.simps [simp del]

definition arena_realloc ::
  "ptr \<Rightarrow> ptr \<Rightarrow> ptr \<Rightarrow> size_t \<Rightarrow> size_t \<Rightarrow> state \<Rightarrow> (error + ptr \<times> state) option" where
  "arena_realloc answer arena old_ptr old_size new_size s =
     (if arena = NULL then Some (Inl (Assertion_failed ''arena != NULL''))
      else if new_size < old_size then Some (Inr (old_ptr, s))
      else case arena_alloc answer arena new_size s of
             None \<Rightarrow> None
           | Some (Inl e) \<Rightarrow> Some (Inl e)
           | Some (Inr (new_ptr, s1)) \<Rightarrow>
               Some (Inr (new_ptr, arena_realloc_loop new_ptr old_ptr old_size 0 s1)))"

text \<open>The loop of \<open>arena_reset\<close>, entered at the region \<open>cur\<close>.\<close>

partial_function (option) arena_reset_loop :: "state \<Rightarrow> ptr \<Rightarrow> (error + state) option" where
  "arena_reset_loop s cur =
     (if cur = NULL then Some (Inr s)
      else case regions s cur of
             None \<Rightarrow> Some (Inl Segfault)
           | Some r \<Rightarrow>
               arena_reset_loop
                 (s\<lparr>regions := (regions s)(cur \<mapsto> r\<lparr>count := 0, remaining := capacity r\<rparr>)\<rparr>)
                 (next r))"

declare arena_reset_loop.simps [code]

definition arena_reset :: "ptr \<Rightarrow> state \<Rightarrow> (error + state) option" where
  "arena_reset arena s =
     (if arena = NULL then Some (Inl (Assertion_failed ''arena != NULL''))
      else case arenas s arena of
             None \<Rightarrow> Some (Inl Segfault)
           | Some a \<Rightarrow> arena_reset_loop s (head a))"

text \<open>The loop of \<open>arena_destroy\<close>: \<open>curr->next\<close> is read before the region is freed.\<close>

partial_function (option) arena_destroy_loop :: "state \<Rightarrow> ptr \<Rightarrow> (error + state) option" where
  "arena_destroy_loop s cur =
     (if cur = NULL then Some (Inr s)
      else case regions s cur of
             None \<Rightarrow> Some (Inl Segfault)
           | Some r \<Rightarrow>
              (case arena__free__region cur s of
                 Inl e \<Rightarrow> Some (Inl e)
               | Inr s1 \<Rightarrow> arena_destroy_loop s1 (next r)))"

declare arena_destroy_loop.simps [code]

definition arena_destroy :: "ptr \<Rightarrow> state \<Rightarrow> (error + state) option" where
  "arena_destroy arena s =
     (case arenas s arena of
        None \<Rightarrow> Some (Inl Segfault)
      | Some a \<Rightarrow>
         (case arena_destroy_loop s (head a) of
            None \<Rightarrow> None
          | Some (Inl e) \<Rightarrow> Some (Inl e)
          | Some (Inr s1) \<Rightarrow>
             (case arenas s1 arena of
                None \<Rightarrow> Some (Inl Segfault)
              | Some a1 \<Rightarrow>
                  Some (Inr (s1\<lparr>arenas := (arenas s1)(arena \<mapsto> a1\<lparr>head := NULL, tail := NULL\<rparr>)\<rparr>)))))"

section \<open>Region chains and sequences of calls\<close>

text \<open>
  \<open>chain h p ps\<close>: following \<open>next\<close> from \<open>p\<close> through the headers \<open>h\<close> visits exactly the
  regions \<open>ps\<close>, in this order, and then reaches \<open>NULL\<close>.
\<close>

fun chain :: "(ptr \<rightharpoonup> Region) \<Rightarrow> ptr \<Rightarrow> ptr list \<Rightarrow> bool" where
  "chain h p [] = (p = NULL)"
| "chain h p (q # qs) =
     (p \<noteq> NULL \<and> p = q \<and> (case h p of None \<Rightarrow> False | Some r \<Rightarrow> chain h (next r) qs))"

text \<open>The invariant the data model asks of one region.\<close>

definition region_ok :: "Region \<Rightarrow> bool" where
  "region_ok r = (0 \<le> count r \<and> count r \<le> capacity r \<and> remaining r = capacity r - count r)"

text \<open>
  \<open>arena_ok s arena ps\<close>: the handle is not null and points to an \<open>Arena\<close> whose chain
  from \<open>head\<close> is \<open>ps\<close>, without repetition, with \<open>tail\<close> at its last region, every
  region of it satisfying \<open>region_ok\<close>. The chain is empty before \<open>arena_init\<close> and after
  \<open>arena_destroy\<close>.
\<close>

definition arena_ok :: "state \<Rightarrow> ptr \<Rightarrow> ptr list \<Rightarrow> bool" where
  "arena_ok s arena ps =
     (arena \<noteq> NULL \<and>
      (case arenas s arena of
         None \<Rightarrow> False
       | Some a \<Rightarrow>
           chain (regions s) (head a) ps \<and> distinct ps \<and>
           (ps \<noteq> [] \<longrightarrow> tail a = last ps) \<and>
           list_all (\<lambda>p. case regions s p of None \<Rightarrow> False | Some r \<Rightarrow> region_ok r) ps))"

text \<open>
  What the kernel guarantees of the address of a new mapping: it is neither null nor
  \<open>MAP_FAILED\<close>, and no live mapping starts there.
\<close>

definition fresh :: "state \<Rightarrow> ptr \<Rightarrow> bool" where
  "fresh s m = (m \<noteq> NULL \<and> m \<noteq> MAP_FAILED \<and> regions s m = None)"

text \<open>
  A call of the public interface on one arena. \<open>Init\<close>, \<open>Alloc\<close> and \<open>Realloc\<close> carry, as
  their first argument, the address the kernel would pick if the call maps memory.
\<close>

datatype call =
    Init ptr size_t
  | Alloc ptr size_t
  | Realloc ptr ptr size_t size_t
  | Reset
  | Destroy

fun exec :: "ptr \<Rightarrow> call \<Rightarrow> state \<Rightarrow> (error + ptr list \<times> state) option" where
  "exec arena (Init m n) s = Some (map_sum id (\<lambda>s'. ([], s')) (arena_init m arena n s))"
| "exec arena (Alloc m n) s = map_option (map_sum id (\<lambda>(p, s'). ([p], s'))) (arena_alloc m arena n s)"
| "exec arena (Realloc m old_ptr old_size new_size) s =
     map_option (map_sum id (\<lambda>(p, s'). ([p], s')))
       (arena_realloc m arena old_ptr old_size new_size s)"
| "exec arena Reset s = map_option (map_sum id (\<lambda>s'. ([], s'))) (arena_reset arena s)"
| "exec arena Destroy s = map_option (map_sum id (\<lambda>s'. ([], s'))) (arena_destroy arena s)"

text \<open>
  \<open>run\<close> makes the calls in order and stops at the first that does not return. Its
  result holds the pointers returned by the \<open>Alloc\<close> and \<open>Realloc\<close> calls, in order.
\<close>

fun run :: "ptr \<Rightarrow> call list \<Rightarrow> state \<Rightarrow> (error + ptr list \<times> state) option" where
  "run arena [] s = Some (Inr ([], s))"
| "run arena (c # cs) s =
     (case exec arena c s of
        None \<Rightarrow> None
      | Some (Inl e) \<Rightarrow> Some (Inl e)
      | Some (Inr (ps, s1)) \<Rightarrow>
         (case run arena cs s1 of
            None \<Rightarrow> None
          | Some (Inl e) \<Rightarrow> Some (Inl e)
          | Some (Inr (qs, s2)) \<Rightarrow> Some (Inr (ps @ qs, s2))))"

fun answer :: "call \<Rightarrow> ptr option" where
  "answer (Init m n) = Some m"
| "answer (Alloc m n) = Some m"
| "answer (Realloc m old_ptr old_size new_size) = Some m"
| "answer Reset = None"
| "answer Destroy = None"

text \<open>\<open>kernel_ok arena cs s\<close>: along the run, each address the kernel offers is fresh.\<close>

fun kernel_ok :: "ptr \<Rightarrow> call list \<Rightarrow> state \<Rightarrow> bool" where
  "kernel_ok arena [] s = True"
| "kernel_ok arena (c # cs) s =
     ((case answer c of None \<Rightarrow> True | Some m \<Rightarrow> fresh s m) \<and>
      (case exec arena c s of
         Some (Inr (ps, s1)) \<Rightarrow> kernel_ok arena cs s1
       | _ \<Rightarrow> True))"

text \<open>
  A process that has mapped nothing yet and holds one zeroed \<open>Arena\<close> object
  (\<open>Arena arena = {0};\<close>) at the address \<open>arena\<close>.
\<close>

definition process :: "size_t \<Rightarrow> ptr \<Rightarrow> state" where
  "process pagesize arena =
     \<lparr>page_size = pagesize,
      arenas = [arena \<mapsto> \<lparr>head = NULL, tail = NULL\<rparr>],
      regions = Map.empty,
      mem = (\<lambda>_. 0),
      mmap_calls = 0\<rparr>"

text \<open>
  The arena that \<open>arena_init(&arena, 1)\<close> leaves on a system with 4096-byte pages, when
  the kernel maps the region at \<open>0x7000\<close>.
\<close>

definition one_region :: state where
  "one_region =
     \<lparr>page_size = 4096,
      arenas = [0x1000 \<mapsto> \<lparr>head = 0x7000, tail = 0x7000\<rparr>],
      regions = [0x7000 \<mapsto>
        \<lparr>next = NULL, capacity = 4056, count = 0, remaining = 4056, bytes = 0x7028\<rparr>],
      mem = (\<lambda>_. 0),
      mmap_calls = 1\<rparr>"

text \<open>An arena of two regions, the first of them with 10 bytes left.\<close>

definition two_regions :: state where
  "two_regions =
     \<lparr>page_size = 4096,
      arenas = [0x1000 \<mapsto> \<lparr>head = 0x7000, tail = 0x9000\<rparr>],
      regions = [0x7000 \<mapsto>
        \<lparr>next = 0x9000, capacity = 4056, count = 4046, remaining = 10, bytes = 0x7028\<rparr>,
                 0x9000 \<mapsto>
        \<lparr>next = NULL, capacity = 8152, count = 0, remaining = 8152, bytes = 0x9028\<rparr>],
      mem = (\<lambda>_. 0),
      mmap_calls = 2\<rparr>"


section \<open>Chains\<close>

lemmas arena_defs = arena_init_def arena_alloc_def arena__align__size_def arena__new__region_def
  mmap_def ARENA_REGION_SIZE_def arena__append__region_def ARENA_REGION_DEFAULT_CAPACITY_def
  ARENA_PAGE_SIZE_def

lemma chain_next_cong:
  "chain h p ps \<Longrightarrow> (\<forall>q\<in>set ps. map_option next (h' q) = map_option next (h q)) \<Longrightarrow> chain h' p ps"
proof (induction ps arbitrary: p)
  case Nil
  then show ?case by simp
next
  case (Cons q qs)
  then show ?case
    by (auto split: option.splits)
qed

lemma chain_cong:
  "chain h p ps \<Longrightarrow> (\<forall>q\<in>set ps. h' q = h q) \<Longrightarrow> chain h' p ps"
  by (erule chain_next_cong) simp

lemma chain_dom: "chain h p ps \<Longrightarrow> q \<in> set ps \<Longrightarrow> h q \<noteq> None"
  by (induction ps arbitrary: p) (auto split: option.splits)

lemma chain_head_nonnull: "chain h p ps \<Longrightarrow> ps \<noteq> [] \<Longrightarrow> p \<noteq> NULL"
  by (cases ps) auto

lemma chain_append:
  assumes "chain h p ps" and "ps \<noteq> []" and "distinct ps" and "m \<notin> set ps" and "m \<noteq> NULL"
    and "h (last ps) = Some t" and "next r = NULL"
    and "h' = h(m \<mapsto> r, last ps \<mapsto> t\<lparr>next := m\<rparr>)"
  shows "chain h' p (ps @ [m])"
  using assms(1-4,6,8)
proof (induction ps arbitrary: p)
  case Nil
  then show ?case by simp
next
  case (Cons q qs)
  show ?case
  proof (cases "qs = []")
    case True
    with Cons.prems assms(5,7) show ?thesis
      by (auto split: option.splits)
  next
    case False
    from Cons.prems(1) obtain rq where rq: "p = q" "q \<noteq> NULL" "h q = Some rq" "chain h (next rq) qs"
      by (auto split: option.splits)
    from False Cons.prems have "last qs \<noteq> q" "q \<noteq> m"
      by auto
    moreover have "chain h' (next rq) (qs @ [m])"
      by (rule Cons.IH [OF rq(4) False]) (use Cons.prems False in auto)
    ultimately show ?thesis
      using rq False Cons.prems(6) by simp
  qed
qed

lemma word_bump:
  fixes cnt cap n :: "64 word"
  assumes "cnt \<le> cap" and "n \<le> cap - cnt"
  shows "cnt + n \<le> cap" and "cap - cnt - n = cap - (cnt + n)"
  using assms by unat_arith+


lemma arena_okI:
  assumes "arena \<noteq> NULL" and "arenas s arena = Some a" and "chain (regions s) (head a) ps"
    and "distinct ps" and "ps \<noteq> [] \<Longrightarrow> tail a = last ps"
    and "\<And>p. p \<in> set ps \<Longrightarrow> \<exists>r. regions s p = Some r \<and> region_ok r"
  shows "arena_ok s arena ps"
  using assms by (fastforce simp: arena_ok_def list_all_iff)

lemma arena_okD:
  assumes "arena_ok s arena ps"
  obtains a where "arena \<noteq> NULL" and "arenas s arena = Some a"
    and "chain (regions s) (head a) ps" and "distinct ps" and "ps \<noteq> [] \<Longrightarrow> tail a = last ps"
    and "\<And>p. p \<in> set ps \<Longrightarrow> \<exists>r. regions s p = Some r \<and> region_ok r"
proof -
  from assms obtain a where a: "arena \<noteq> NULL" "arenas s arena = Some a"
    "chain (regions s) (head a) ps" "distinct ps" "ps \<noteq> [] \<longrightarrow> tail a = last ps"
    "list_all (\<lambda>p. case regions s p of None \<Rightarrow> False | Some r \<Rightarrow> region_ok r) ps"
    by (auto simp: arena_ok_def split: option.splits)
  have "\<exists>r. regions s p = Some r \<and> region_ok r" if "p \<in> set ps" for p
    using a(6) that by (auto simp: list_all_iff split: option.splits)
  with a show thesis
    using that by blast
qed

lemma alloc_loop_none:
  "chain (regions s) c ps \<Longrightarrow> (\<forall>q\<in>set ps. \<forall>r. regions s q = Some r \<longrightarrow> remaining r < n)
   \<Longrightarrow> arena_alloc_loop s c n = Some (Inr None)"
proof (induction ps arbitrary: c)
  case Nil
  then show ?case by (simp add: arena_alloc_loop.simps)
next
  case (Cons q qs)
  then show ?case
    by (subst arena_alloc_loop.simps) (auto split: option.splits simp: not_le)
qed

lemma alloc_loop_first:
  assumes "chain (regions s) c (pre @ p # post)"
    and "\<forall>q\<in>set pre. \<forall>r. regions s q = Some r \<longrightarrow> remaining r < n"
    and "regions s p = Some r" and "n \<le> remaining r"
    and "s' = s\<lparr>regions := (regions s)(p \<mapsto> r\<lparr>count := count r + n, remaining := remaining r - n\<rparr>)\<rparr>"
  shows "arena_alloc_loop s c n = Some (Inr (Some (bytes r + count r, s')))"
  using assms(1,2)
proof (induction pre arbitrary: c)
  case Nil
  then have "c = p" "c \<noteq> NULL" by auto
  then show ?case using assms(3,4,5) by (subst arena_alloc_loop.simps) simp
next
  case (Cons q qs)
  from Cons.prems(1) obtain rq where rq: "c = q" "q \<noteq> NULL" "regions s q = Some rq"
      "chain (regions s) (next rq) (qs @ p # post)"
    by (auto split: option.splits)
  with Cons.prems(2) have "\<not> n \<le> remaining rq" by (simp add: not_le)
  then have "arena_alloc_loop s c n = arena_alloc_loop s (next rq) n"
    using rq by (subst arena_alloc_loop.simps) simp
  also have "\<dots> = Some (Inr (Some (bytes r + count r, s')))"
  proof (rule Cons.IH [OF rq(4)])
    show "\<forall>q\<in>set qs. \<forall>r. regions s q = Some r \<longrightarrow> remaining r < n"
      using Cons.prems(2) by simp
  qed
  finally show ?case .
qed

lemma arena_alloc_fit:
  assumes "arena \<noteq> NULL" and "arenas s arena = Some a"
    and "chain (regions s) (head a) (pre @ p # post)"
    and "\<forall>q\<in>set pre. \<forall>r. regions s q = Some r \<longrightarrow> remaining r < n"
    and "regions s p = Some r" and "n \<le> remaining r"
  shows "arena_alloc m arena n s = Some (Inr (bytes r + count r,
           s\<lparr>regions := (regions s)(p \<mapsto> r\<lparr>count := count r + n, remaining := remaining r - n\<rparr>)\<rparr>))"
proof -
  have "head a \<noteq> NULL"
    using chain_head_nonnull [OF assms(3)] by simp
  moreover note alloc_loop_first [OF assms(3-6) refl]
  ultimately show ?thesis
    using assms(1,2) by (simp add: arena_alloc_def)
qed

lemma arena_alloc_grow:
  assumes "arena \<noteq> NULL" and "arenas s arena = Some a"
    and "chain (regions s) (head a) ps" and "ps \<noteq> []"
    and "\<forall>q\<in>set ps. \<forall>r. regions s q = Some r \<longrightarrow> remaining r < n"
    and "regions s (tail a) = Some t" and "tail a \<noteq> m"
    and "sz = (if n < ARENA_REGION_DEFAULT_CAPACITY s then ARENA_REGION_DEFAULT_CAPACITY s
               else arena__align__size s n)"
    and "r = \<lparr>next = NULL, capacity = sz - ARENA_REGION_SIZE, count = 0,
               remaining = sz - ARENA_REGION_SIZE, bytes = m + ARENA_REGION_SIZE\<rparr>"
  shows "arena_alloc m arena n s =
     (if sz = 0 \<or> m = MAP_FAILED then Some (Inl (Assertion_failed ''ptr != MAP_FAILED''))
      else Some (Inr (bytes r + count r,
             s\<lparr>regions := (regions s)(m \<mapsto> r, tail a \<mapsto> t\<lparr>next := m\<rparr>),
               mmap_calls := Suc (mmap_calls s),
               arenas := (arenas s)(arena \<mapsto> a\<lparr>tail := m\<rparr>)\<rparr>)))"
proof -
  have "head a \<noteq> NULL"
    using chain_head_nonnull [OF assms(3,4)] by simp
  moreover note alloc_loop_none [OF assms(3,5)]
  ultimately show ?thesis
    using assms(1,2,6,7,9) unfolding assms(8)
    by (simp add: arena_alloc_def arena__append__region_def arena__new__region_def mmap_def Let_def)
qed

lemma arena_init_process:
  "arena_init 0x7000 0x1000 1 (process 4096 0x1000) = Inr one_region"
  by (simp add: arena_defs process_def one_region_def)

section \<open>First fit\<close>

text \<open>
  C4. When some region of the chain has room for the request, \<open>arena_alloc\<close> takes the
  first such region in chain order from \<open>head\<close>: the regions \<open>pre\<close> before \<open>p\<close> are all too
  full, \<open>p\<close> has \<open>remaining \<ge> n\<close>. The call returns \<open>bytes + count\<close> of \<open>p\<close>, adds \<open>n\<close> to its
  \<open>count\<close> and takes \<open>n\<close> from its \<open>remaining\<close>; nothing else in the state changes.
\<close>

theorem arena_alloc_first_fit:
  assumes "arena \<noteq> NULL" and "arenas s arena = Some a"
    and "chain (regions s) (head a) (pre @ p # post)"
    and "\<forall>q\<in>set pre. \<forall>r. regions s q = Some r \<longrightarrow> remaining r < n"
    and "regions s p = Some r" and "n \<le> remaining r"
  shows "arena_alloc m arena n s = Some (Inr (bytes r + count r,
           s\<lparr>regions := (regions s)(p \<mapsto> r\<lparr>count := count r + n, remaining := remaining r - n\<rparr>)\<rparr>))"
  using assms by (rule arena_alloc_fit)

theorem arena_alloc_first_fit_witness:
  "arena_alloc 0xC000 0x1000 100 two_regions = Some (Inr (0x9028,
     two_regions\<lparr>regions := (regions two_regions)(0x9000 \<mapsto>
       \<lparr>next = NULL, capacity = 8152, count = 100, remaining = 8052, bytes = 0x9028\<rparr>)\<rparr>))"
  using arena_alloc_first_fit [of "0x1000" two_regions "\<lparr>head = 0x7000, tail = 0x9000\<rparr>"
      "[0x7000]" "0x9000" "[]" 100
      "\<lparr>next = NULL, capacity = 8152, count = 0, remaining = 8152, bytes = 0x9028\<rparr>" "0xC000"]
  by (simp add: two_regions_def)

section \<open>The growth path\<close>

text \<open>
  C10. When no region of the chain has room for the request and the kernel grants the
  mapping, \<open>arena_alloc\<close> appends a region at \<open>tail\<close> and returns its \<open>bytes + count\<close>, and
  the new region is left as \<open>arena__new__region\<close> made it: \<open>count\<close> is 0 and \<open>remaining\<close>
  equals \<open>capacity\<close>.
\<close>

theorem arena_alloc_growth_path:
  assumes "arena \<noteq> NULL" and "arenas s arena = Some a"
    and "chain (regions s) (head a) ps" and "ps \<noteq> []" and "tail a = last ps"
    and "\<forall>q\<in>set ps. \<forall>r. regions s q = Some r \<longrightarrow> remaining r < n"
    and "fresh s m"
    and "sz = (if n < ARENA_REGION_DEFAULT_CAPACITY s then ARENA_REGION_DEFAULT_CAPACITY s
               else arena__align__size s n)"
    and "sz \<noteq> 0"
  shows "\<exists>s' r. arena_alloc m arena n s = Some (Inr (bytes r + count r, s')) \<and>
           arenas s' arena = Some (a\<lparr>tail := m\<rparr>) \<and> regions s' m = Some r \<and>
           r = \<lparr>next = NULL, capacity = sz - ARENA_REGION_SIZE, count = 0,
                remaining = sz - ARENA_REGION_SIZE, bytes = m + ARENA_REGION_SIZE\<rparr>"
proof -
  have "last ps \<in> set ps"
    using assms(4) by simp
  then obtain t where t: "regions s (tail a) = Some t"
    using chain_dom [OF assms(3)] assms(5) by fastforce
  with assms(7) have neq: "tail a \<noteq> m"
    by (auto simp: fresh_def)
  from assms(7) have "m \<noteq> MAP_FAILED"
    by (simp add: fresh_def)
  with arena_alloc_grow [OF assms(1-4,6) t neq assms(8) refl] assms(9) neq
  show ?thesis
    by simp
qed

theorem arena_alloc_growth_path_witness:
  "\<exists>s'. arena_alloc 0xC000 0x1000 5000 one_region = Some (Inr (0xC028, s')) \<and>
      arenas s' 0x1000 = Some \<lparr>head = 0x7000, tail = 0xC000\<rparr> \<and>
      regions s' 0xC000 =
        Some \<lparr>next = NULL, capacity = 8152, count = 0, remaining = 8152, bytes = 0xC028\<rparr>"
proof -
  have "\<exists>s' r. arena_alloc 0xC000 0x1000 5000 one_region = Some (Inr (bytes r + count r, s')) \<and>
           arenas s' 0x1000 = Some (\<lparr>head = 0x7000, tail = 0x7000\<rparr>\<lparr>tail := 0xC000\<rparr>) \<and>
           regions s' 0xC000 = Some r \<and>
           r = \<lparr>next = NULL, capacity = 8192 - ARENA_REGION_SIZE, count = 0,
                remaining = 8192 - ARENA_REGION_SIZE, bytes = 0xC000 + ARENA_REGION_SIZE\<rparr>"
    by (rule arena_alloc_growth_path [where ps = "[0x7000]"])
      (simp_all add: one_region_def fresh_def ARENA_REGION_DEFAULT_CAPACITY_def ARENA_PAGE_SIZE_def)
  then show ?thesis
    by (auto simp: ARENA_REGION_SIZE_def)
qed

text \<open>
  C1. Two live allocations of one arena can share their address. After
  \<open>arena_init(&arena, 1)\<close> with 4096-byte pages, a first \<open>arena_alloc(&arena, 5000)\<close> finds
  no room, appends a region and returns the start of its buffer without counting the 5000
  bytes as used; a second \<open>arena_alloc(&arena, 5000)\<close> finds that region empty and returns
  the same address.
\<close>

theorem two_allocations_same_address:
  "map_option (map_sum id fst)
     (run 0x1000 [Init 0x7000 1, Alloc 0x9000 5000, Alloc 0xC000 5000] (process 4096 0x1000))
   = Some (Inr [0x9028, 0x9028])"
  by (simp add: arena_defs process_def arena_alloc_loop.simps)

text \<open>
  C2. \<open>arena__append__region\<close> compares the request with the default mapping size before
  the header is added to it. For a request of 8160 bytes with 4096-byte pages it maps the
  default 8192 bytes, not \<open>max(ARENA_REGION_DEFAULT_CAPACITY, arena__align__size(8160))\<close>,
  which is 12288; the region then has a capacity of 8152, less than the 8160 bytes that
  \<open>arena_alloc\<close> hands out at its start.
\<close>

theorem arena__append__region_8160:
  "arena__append__region 0x9000 0x1000 8160 one_region =
     Inr \<lparr>page_size = 4096,
          arenas = [0x1000 \<mapsto> \<lparr>head = 0x7000, tail = 0x9000\<rparr>],
          regions = [0x9000 \<mapsto>
            \<lparr>next = NULL, capacity = 8152, count = 0, remaining = 8152, bytes = 0x9028\<rparr>,
                     0x7000 \<mapsto>
            \<lparr>next = 0x9000, capacity = 4056, count = 0, remaining = 4056, bytes = 0x7028\<rparr>],
          mem = (\<lambda>_. 0),
          mmap_calls = 2\<rparr> \<and>
   map_option (map_sum id fst) (arena_alloc 0x9000 0x1000 8160 one_region) = Some (Inr 0x9028) \<and>
   max (ARENA_REGION_DEFAULT_CAPACITY one_region) (arena__align__size one_region 8160) = 12288 \<and>
   \<not> (8160 :: size_t) \<le> 8152"
  by (simp add: arena_defs one_region_def arena_alloc_loop.simps)

section \<open>The example of the specification\<close>

text \<open>
  C8, as stated, fails: with 4096-byte pages \<open>arena_init(&arena, 1)\<close> maps one page, so
  the capacity of the region is 4056, below \<open>2 * 4096 - sizeof(Region)\<close>.
\<close>

theorem arena_init_1_capacity:
  "arena_init 0x7000 0x1000 1 (process 4096 0x1000) = Inr one_region \<and>
   regions one_region 0x7000 =
     Some \<lparr>next = NULL, capacity = 4056, count = 0, remaining = 4056, bytes = 0x7028\<rparr> \<and>
   \<not> (2 * 4096 - ARENA_REGION_SIZE \<le> (4056 :: size_t))"
  by (simp add: arena_defs process_def one_region_def)

text \<open>
  C8, amended. With 4096-byte pages, \<open>arena_init(&arena, 1)\<close> leaves an arena of exactly one
  region, of capacity \<open>4096 - sizeof(Region)\<close>; \<open>arena_alloc(&arena, 100)\<close> and then
  \<open>arena_alloc(&arena, 50)\<close> both return from that region, which ends with a \<open>count\<close> of 150,
  and \<open>mmap\<close> has been called once.
\<close>

theorem arena_init_1_then_allocs:
  assumes "page_size s = 4096" and "arena \<noteq> NULL" and "arenas s arena = Some a"
    and "m \<noteq> NULL" and "m \<noteq> MAP_FAILED"
  shows "\<exists>s1 s2 s3.
      arena_init m arena 1 s = Inr s1 \<and>
      arenas s1 arena = Some \<lparr>head = m, tail = m\<rparr> \<and>
      chain (regions s1) m [m] \<and>
      map_option capacity (regions s1 m) = Some (4096 - ARENA_REGION_SIZE) \<and>
      arena_alloc k1 arena 100 s1 = Some (Inr (m + ARENA_REGION_SIZE, s2)) \<and>
      arena_alloc k2 arena 50 s2 = Some (Inr (m + ARENA_REGION_SIZE + 100, s3)) \<and>
      arenas s3 arena = Some \<lparr>head = m, tail = m\<rparr> \<and>
      regions s3 m = Some \<lparr>next = NULL, capacity = 4056, count = 150, remaining = 3906,
                           bytes = m + ARENA_REGION_SIZE\<rparr> \<and>
      mmap_calls s3 = Suc (mmap_calls s)"
  using assms by (simp add: arena_defs arena_alloc_loop.simps)

theorem arena_init_1_then_allocs_witness:
  "\<exists>s2 s3.
      arena_alloc 0x9000 0x1000 100 one_region = Some (Inr (0x7028, s2)) \<and>
      arena_alloc 0xC000 0x1000 50 s2 = Some (Inr (0x708C, s3)) \<and>
      regions s3 0x7000 = Some \<lparr>next = NULL, capacity = 4056, count = 150, remaining = 3906,
                                bytes = 0x7028\<rparr> \<and>
      mmap_calls s3 = 1"
  using arena_init_1_then_allocs [of "process 4096 0x1000" "0x1000"
      "\<lparr>head = NULL, tail = NULL\<rparr>" "0x7000" "0x9000" "0xC000"]
  by (simp add: arena_init_process) (auto simp: process_def ARENA_REGION_SIZE_def)

section \<open>Reset and destroy on an arena without regions\<close>

lemma arena_destroy_result:
  assumes "arena_destroy arena s = Some (Inr s')"
  shows "arenas s' arena = Some \<lparr>head = NULL, tail = NULL\<rparr>"
proof -
  from assms obtain s1 a1 where "arenas s1 arena = Some a1"
    and "s' = s1\<lparr>arenas := (arenas s1)(arena \<mapsto> a1\<lparr>head := NULL, tail := NULL\<rparr>)\<rparr>"
    by (auto simp: arena_destroy_def split: option.splits sum.splits)
  then show ?thesis
    by simp
qed

text \<open>
  C6, as stated, fails in its second half: \<open>arena_destroy\<close> asserts nothing about the
  arena, so a second call finds \<open>head\<close> null, skips the loop and returns.
\<close>

theorem destroy_twice_returns:
  "run 0x1000 [Init 0x7000 1, Destroy, Destroy] (process 4096 0x1000)
   = Some (Inr ([], process 4096 0x1000\<lparr>mmap_calls := 1\<rparr>))"
  by (simp add: arena_defs process_def arena_destroy_def arena_destroy_loop.simps
      arena__free__region_def munmap_def)

text \<open>
  C6, amended. After \<open>arena_destroy\<close> returns, \<open>head\<close> and \<open>tail\<close> are both null, and a second
  \<open>arena_destroy\<close> returns as well, leaving the state as it found it.
\<close>

theorem arena_destroy_twice:
  assumes "arena_destroy arena s = Some (Inr s')"
  shows "arenas s' arena = Some \<lparr>head = NULL, tail = NULL\<rparr> \<and>
         arena_destroy arena s' = Some (Inr s')"
proof -
  have h: "arenas s' arena = Some \<lparr>head = NULL, tail = NULL\<rparr>"
    using assms by (rule arena_destroy_result)
  have "(arenas s')(arena \<mapsto> \<lparr>head = NULL, tail = NULL\<rparr>) = arenas s'"
    using h by (rule map_upd_triv)
  then have "s'\<lparr>arenas := (arenas s')(arena \<mapsto> \<lparr>head = NULL, tail = NULL\<rparr>)\<rparr> = s'"
    by simp
  then have "arena_destroy arena s' = Some (Inr s')"
    using h by (simp add: arena_destroy_def arena_destroy_loop.simps)
  with h show ?thesis by simp
qed

theorem arena_destroy_twice_witness:
  "arena_destroy 0x1000 one_region = Some (Inr (process 4096 0x1000\<lparr>mmap_calls := 1\<rparr>)) \<and>
   arenas (process 4096 0x1000\<lparr>mmap_calls := 1\<rparr>) 0x1000 = Some \<lparr>head = NULL, tail = NULL\<rparr> \<and>
   arena_destroy 0x1000 (process 4096 0x1000\<lparr>mmap_calls := 1\<rparr>)
     = Some (Inr (process 4096 0x1000\<lparr>mmap_calls := 1\<rparr>))"
proof -
  have "arena_destroy 0x1000 one_region = Some (Inr (process 4096 0x1000\<lparr>mmap_calls := 1\<rparr>))"
    by (simp add: arena_destroy_def arena_destroy_loop.simps process_def one_region_def
        arena__free__region_def munmap_def ARENA_REGION_SIZE_def)
  from arena_destroy_twice [OF this] this show ?thesis by simp
qed

text \<open>
  C7, as stated, fails: \<open>arena_reset\<close> asserts only that the handle is not null. On an
  arena that was never initialised the loop has nothing to visit and the call returns.
\<close>

theorem reset_uninitialized_returns:
  "arena_reset 0x1000 (process 4096 0x1000) = Some (Inr (process 4096 0x1000))"
  by (simp add: arena_reset_def arena_reset_loop.simps process_def)

text \<open>
  C7, amended. \<open>arena_reset\<close> fails with the assertion \<open>arena != NULL\<close> when the handle is
  null; on an arena whose \<open>head\<close> is null it returns and changes nothing.
\<close>

theorem arena_reset_head_null:
  "arena_reset NULL s = Some (Inl (Assertion_failed ''arena != NULL'')) \<and>
   (arena \<noteq> NULL \<and> arenas s arena = Some a \<and> head a = NULL \<longrightarrow>
      arena_reset arena s = Some (Inr s))"
  by (simp add: arena_reset_def arena_reset_loop.simps)

theorem arena_reset_head_null_witness:
  "arena_reset NULL (process 16384 0x4000) = Some (Inl (Assertion_failed ''arena != NULL'')) \<and>
   arena_reset 0x4000 (process 16384 0x4000) = Some (Inr (process 16384 0x4000))"
  using arena_reset_head_null [of "process 16384 0x4000" "0x4000" "\<lparr>head = NULL, tail = NULL\<rparr>"]
  by (simp add: process_def)

section \<open>The region invariant without \<open>arena_realloc\<close>\<close>

lemma region_ok_bump:
  assumes "region_ok r" and "n \<le> remaining r"
  shows "region_ok (r\<lparr>count := count r + n, remaining := remaining r - n\<rparr>)"
  using assms word_bump [of "count r" "capacity r" n]
  by (simp add: region_ok_def)

lemma arena_init_ok:
  assumes "arena \<noteq> NULL" and "arenas s arena = Some a" and "m \<noteq> NULL"
    and "arena_init m arena n s = Inr s'"
  shows "arena_ok s' arena [m]"
  using assms
  by (auto simp: arena_init_def arena__new__region_def mmap_def Let_def arena_ok_def region_ok_def
      split: if_splits)

lemma arena_alloc_ok:
  assumes ok: "arena_ok s arena ps" and fr: "fresh s m"
    and al: "arena_alloc m arena n s = Some (Inr (p, s'))"
  shows "\<exists>ps'. arena_ok s' arena ps'"
proof -
  from ok obtain a where a: "arena \<noteq> NULL" "arenas s arena = Some a"
    "chain (regions s) (head a) ps" "distinct ps" "ps \<noteq> [] \<Longrightarrow> tail a = last ps"
    and rs: "\<And>q. q \<in> set ps \<Longrightarrow> \<exists>r. regions s q = Some r \<and> region_ok r"
    by (rule arena_okD) blast
  from al a(1,2) have "head a \<noteq> NULL"
    by (auto simp: arena_alloc_def split: if_splits)
  with a(3) have ne: "ps \<noteq> []"
    by auto
  let ?fits = "\<lambda>q. \<exists>r. regions s q = Some r \<and> n \<le> remaining r"
  consider (fit) pre q post where "ps = pre @ q # post" "?fits q" "\<forall>x\<in>set pre. \<not> ?fits x"
    | (grow) "\<forall>x\<in>set ps. \<not> ?fits x"
    using split_list_first_prop [of ps ?fits] by blast
  then show ?thesis
  proof cases
    case fit
    from fit(2) obtain r where r: "regions s q = Some r" "n \<le> remaining r"
      by blast
    have small: "\<forall>x\<in>set pre. \<forall>r. regions s x = Some r \<longrightarrow> remaining r < n"
      using fit(3) by (auto simp: not_le)
    define r' where "r' = r\<lparr>count := count r + n, remaining := remaining r - n\<rparr>"
    have s': "s' = s\<lparr>regions := (regions s)(q \<mapsto> r')\<rparr>"
      using arena_alloc_fit [OF a(1,2) a(3) [unfolded fit(1)] small r, of m] al
      by (simp add: r'_def)
    have "q \<in> set ps"
      using fit(1) by simp
    with rs r have "region_ok r"
      by fastforce
    then have okr': "region_ok r'"
      unfolding r'_def using r(2) by (rule region_ok_bump)
    have "arena_ok s' arena ps"
    proof (rule arena_okI)
      show "arena \<noteq> NULL" by fact
      show "arenas s' arena = Some a" using a(2) by (simp add: s')
      show "chain (regions s') (head a) ps"
        using a(3) by (rule chain_next_cong) (simp add: s' r'_def r)
      show "distinct ps" by fact
      show "tail a = last ps" if "ps \<noteq> []" using a(5) that .
      show "\<exists>r. regions s' x = Some r \<and> region_ok r" if "x \<in> set ps" for x
        using rs [OF that] okr' by (simp add: s')
    qed
    then show ?thesis ..
  next
    case grow
    have small: "\<forall>x\<in>set ps. \<forall>r. regions s x = Some r \<longrightarrow> remaining r < n"
      using grow by (auto simp: not_le)
    have tl: "tail a = last ps"
      using a(5) ne .
    then have "tail a \<in> set ps"
      using ne by simp
    with rs obtain t where t: "regions s (tail a) = Some t" "region_ok t"
      by blast
    from fr have m: "m \<noteq> NULL" "regions s m = None"
      by (simp_all add: fresh_def)
    with t have neq: "tail a \<noteq> m"
      by auto
    have notin: "m \<notin> set ps"
      using rs m(2) by fastforce
    define sz where "sz = (if n < ARENA_REGION_DEFAULT_CAPACITY s
      then ARENA_REGION_DEFAULT_CAPACITY s else arena__align__size s n)"
    define r where "r = \<lparr>next = NULL, capacity = sz - ARENA_REGION_SIZE, count = 0,
               remaining = sz - ARENA_REGION_SIZE, bytes = m + ARENA_REGION_SIZE\<rparr>"
    define h' where "h' = (regions s)(m \<mapsto> r, last ps \<mapsto> t\<lparr>next := m\<rparr>)"
    have s': "s' = s\<lparr>regions := h', mmap_calls := Suc (mmap_calls s),
                    arenas := (arenas s)(arena \<mapsto> a\<lparr>tail := m\<rparr>)\<rparr>"
      using arena_alloc_grow [OF a(1,2,3) ne small t(1) neq sz_def r_def] al
      by (simp add: h'_def tl split: if_splits)
    have "arena_ok s' arena (ps @ [m])"
    proof (rule arena_okI)
      show "arena \<noteq> NULL" by fact
      show "arenas s' arena = Some (a\<lparr>tail := m\<rparr>)" by (simp add: s')
      have "chain h' (head a) (ps @ [m])"
        using a(3) ne a(4) notin m(1) t(1) [unfolded tl] _ h'_def
        by (rule chain_append) (simp add: r_def)
      then show "chain (regions s') (head (a\<lparr>tail := m\<rparr>)) (ps @ [m])"
        by (simp add: s')
      show "distinct (ps @ [m])"
        using a(4) notin by simp
      show "tail (a\<lparr>tail := m\<rparr>) = last (ps @ [m])"
        by simp
      show "\<exists>r. regions s' x = Some r \<and> region_ok r" if "x \<in> set (ps @ [m])" for x
      proof (cases "x = last ps")
        case True
        then show ?thesis
          using t(2) by (simp add: s' h'_def region_ok_def)
      next
        case False
        show ?thesis
        proof (cases "x = m")
          case True
          then show ?thesis
            using False by (simp add: s' h'_def r_def region_ok_def)
        next
          case xm: False
          with that have "x \<in> set ps" by simp
          from rs [OF this] False xm show ?thesis
            by (simp add: s' h'_def)
        qed
      qed
    qed
    then show ?thesis ..
  qed
qed

lemma arena_reset_loop_chain:
  assumes "chain (regions s) c ps" and "distinct ps"
  shows "\<exists>s'. arena_reset_loop s c = Some (Inr s') \<and> arenas s' = arenas s \<and>
           (\<forall>q. regions s' q =
              (if q \<in> set ps
               then map_option (\<lambda>r. r\<lparr>count := 0, remaining := capacity r\<rparr>) (regions s q)
               else regions s q))"
  using assms
proof (induction ps arbitrary: s c)
  case Nil
  then show ?case
    by (simp add: arena_reset_loop.simps)
next
  case (Cons q qs)
  from Cons.prems(1) obtain r where r: "c = q" "q \<noteq> NULL" "regions s q = Some r"
      "chain (regions s) (next r) qs"
    by (auto split: option.splits)
  define s1 where "s1 = s\<lparr>regions := (regions s)(q \<mapsto> r\<lparr>count := 0, remaining := capacity r\<rparr>)\<rparr>"
  have notin: "q \<notin> set qs" and dist: "distinct qs"
    using Cons.prems(2) by simp_all
  have "chain (regions s1) (next r) qs"
    using r(4) by (rule chain_cong) (use notin in \<open>auto simp: s1_def\<close>)
  from Cons.IH [OF this dist] obtain s' where s': "arena_reset_loop s1 (next r) = Some (Inr s')"
    "arenas s' = arenas s1"
    "\<forall>x. regions s' x =
              (if x \<in> set qs
               then map_option (\<lambda>r. r\<lparr>count := 0, remaining := capacity r\<rparr>) (regions s1 x)
               else regions s1 x)"
    by blast
  have "arena_reset_loop s c = arena_reset_loop s1 (next r)"
    using r by (subst arena_reset_loop.simps) (simp add: s1_def)
  with s' notin r(3) show ?case
    by (auto simp: s1_def)
qed

lemma arena_reset_ok:
  assumes "arena_ok s arena ps" and "arena_reset arena s = Some (Inr s')"
  shows "arena_ok s' arena ps"
proof -
  from assms(1) obtain a where a: "arena \<noteq> NULL" "arenas s arena = Some a"
    "chain (regions s) (head a) ps" "distinct ps" "ps \<noteq> [] \<Longrightarrow> tail a = last ps"
    and rs: "\<And>q. q \<in> set ps \<Longrightarrow> \<exists>r. regions s q = Some r \<and> region_ok r"
    by (rule arena_okD) blast
  from arena_reset_loop_chain [OF a(3,4)] assms(2) a(1,2)
  have s': "arenas s' = arenas s"
    "\<And>q. regions s' q =
              (if q \<in> set ps
               then map_option (\<lambda>r. r\<lparr>count := 0, remaining := capacity r\<rparr>) (regions s q)
               else regions s q)"
    by (auto simp: arena_reset_def)
  show ?thesis
  proof (rule arena_okI)
    show "arena \<noteq> NULL" by fact
    show "arenas s' arena = Some a" using a(2) s'(1) by simp
    show "chain (regions s') (head a) ps"
      using a(3) by (rule chain_next_cong) (simp add: s'(2) option.map_comp comp_def)
    show "distinct ps" by fact
    show "tail a = last ps" if "ps \<noteq> []" using a(5) that .
    show "\<exists>r. regions s' x = Some r \<and> region_ok r" if "x \<in> set ps" for x
      using rs [OF that] that by (auto simp: s'(2) region_ok_def)
  qed
qed

lemma arena_destroy_ok:
  assumes "arena \<noteq> NULL" and "arena_destroy arena s = Some (Inr s')"
  shows "arena_ok s' arena []"
  using assms(1) arena_destroy_result [OF assms(2)]
  by (simp add: arena_ok_def)

text \<open>
  Every call other than \<open>arena_realloc\<close> keeps \<open>arena_ok\<close>, and with it \<open>region_ok\<close> for
  every region reachable from \<open>head\<close>.
\<close>

lemma exec_ok:
  assumes "arena_ok s arena ps"
    and "case answer c of None \<Rightarrow> True | Some m \<Rightarrow> fresh s m"
    and "\<forall>m old_ptr old_size new_size. c \<noteq> Realloc m old_ptr old_size new_size"
    and "exec arena c s = Some (Inr (ptrs, s'))"
  shows "\<exists>ps'. arena_ok s' arena ps'"
proof (cases c)
  case (Init m n)
  from assms(1) obtain a where "arena \<noteq> NULL" "arenas s arena = Some a"
    by (rule arena_okD)
  moreover from assms(2) Init have "m \<noteq> NULL"
    by (simp add: fresh_def)
  moreover from assms(4) Init obtain "arena_init m arena n s = Inr s'"
    by (cases "arena_init m arena n s") auto
  ultimately have "arena_ok s' arena [m]"
    by (rule arena_init_ok)
  then show ?thesis ..
next
  case (Alloc m n)
  with assms(4) obtain p where "arena_alloc m arena n s = Some (Inr (p, s'))"
    by (cases "arena_alloc m arena n s") (auto simp: map_sum_def split: sum.splits)
  with assms(1,2) Alloc show ?thesis
    by (auto intro: arena_alloc_ok)
next
  case (Realloc m old_ptr old_size new_size)
  with assms(3) show ?thesis
    by simp
next
  case Reset
  with assms(4) have "arena_reset arena s = Some (Inr s')"
    by (cases "arena_reset arena s") (auto simp: map_sum_def split: sum.splits)
  with assms(1) have "arena_ok s' arena ps"
    by (rule arena_reset_ok)
  then show ?thesis ..
next
  case Destroy
  with assms(4) have "arena_destroy arena s = Some (Inr s')"
    by (cases "arena_destroy arena s") (auto simp: map_sum_def split: sum.splits)
  moreover from assms(1) have "arena \<noteq> NULL"
    by (simp add: arena_ok_def)
  ultimately have "arena_ok s' arena []"
    by (rule arena_destroy_ok [rotated])
  then show ?thesis ..
qed

lemma run_ok:
  assumes "arena_ok s arena ps" and "kernel_ok arena cs s"
    and "\<forall>c\<in>set cs. \<forall>m old_ptr old_size new_size. c \<noteq> Realloc m old_ptr old_size new_size"
    and "run arena cs s = Some (Inr (ptrs, s'))"
  shows "\<exists>ps'. arena_ok s' arena ps'"
  using assms
proof (induction cs arbitrary: s ps ptrs)
  case Nil
  then show ?case by auto
next
  case (Cons c cs)
  from Cons.prems(4) obtain xs s1 ys where e: "exec arena c s = Some (Inr (xs, s1))"
    and r: "run arena cs s1 = Some (Inr (ys, s'))"
    by (auto split: option.splits sum.splits)
  from Cons.prems(2) e have k: "case answer c of None \<Rightarrow> True | Some m \<Rightarrow> fresh s m"
    and k1: "kernel_ok arena cs s1"
    by simp_all
  from Cons.prems(3) have nr: "\<forall>m old_ptr old_size new_size. c \<noteq> Realloc m old_ptr old_size new_size"
    and nrs: "\<forall>c\<in>set cs. \<forall>m old_ptr old_size new_size. c \<noteq> Realloc m old_ptr old_size new_size"
    by simp_all
  from exec_ok [OF Cons.prems(1) k nr e] obtain ps1 where "arena_ok s1 arena ps1" ..
  from Cons.IH [OF this k1 nrs r] show ?case .
qed

text \<open>On an arena that satisfies \<open>arena_ok\<close> the loops of \<open>arena_alloc\<close> and \<open>arena_reset\<close> end.\<close>

lemma arena_alloc_returns:
  assumes "arena_ok s arena ps"
  shows "\<exists>y. arena_alloc m arena n s = Some y"
proof -
  from assms obtain a where a: "arena \<noteq> NULL" "arenas s arena = Some a"
    "chain (regions s) (head a) ps" "ps \<noteq> [] \<Longrightarrow> tail a = last ps"
    and rs: "\<And>q. q \<in> set ps \<Longrightarrow> \<exists>r. regions s q = Some r \<and> region_ok r"
    by (rule arena_okD) blast
  show ?thesis
  proof (cases "ps = []")
    case True
    with a show ?thesis
      by (simp add: arena_alloc_def)
  next
    case False
    let ?fits = "\<lambda>q. \<exists>r. regions s q = Some r \<and> n \<le> remaining r"
    consider (fit) pre q post where "ps = pre @ q # post" "?fits q" "\<forall>x\<in>set pre. \<not> ?fits x"
      | (grow) "\<forall>x\<in>set ps. \<not> ?fits x"
      using split_list_first_prop [of ps ?fits] by blast
    then show ?thesis
    proof cases
      case fit
      from fit(2) obtain r where r: "regions s q = Some r" "n \<le> remaining r"
        by blast
      have "\<forall>x\<in>set pre. \<forall>r. regions s x = Some r \<longrightarrow> remaining r < n"
        using fit(3) by (auto simp: not_le)
      from arena_alloc_fit [OF a(1,2) a(3) [unfolded fit(1)] this r, of m] show ?thesis
        by simp
    next
      case grow
      have small: "\<forall>x\<in>set ps. \<forall>r. regions s x = Some r \<longrightarrow> remaining r < n"
        using grow by (auto simp: not_le)
      have "head a \<noteq> NULL"
        using a(3) False by (rule chain_head_nonnull)
      with alloc_loop_none [OF a(3) small] a(1,2) show ?thesis
        by (simp add: arena_alloc_def split: sum.splits option.splits)
    qed
  qed
qed

lemma arena_reset_returns:
  assumes "arena_ok s arena ps"
  shows "\<exists>s'. arena_reset arena s = Some (Inr s')"
proof -
  from assms obtain a where "arena \<noteq> NULL" "arenas s arena = Some a"
    "chain (regions s) (head a) ps" "distinct ps"
    by (rule arena_okD)
  with arena_reset_loop_chain [of s "head a" ps] show ?thesis
    by (auto simp: arena_reset_def)
qed

section \<open>Allocations that fit the initial region\<close>

lemma arena_alloc_head:
  assumes "arena \<noteq> NULL" and "arenas s arena = Some a" and "head a \<noteq> NULL"
    and "regions s (head a) = Some r" and "n \<le> remaining r"
  shows "arena_alloc k arena n s = Some (Inr (bytes r + count r,
           s\<lparr>regions := (regions s)(head a \<mapsto>
             r\<lparr>count := count r + n, remaining := remaining r - n\<rparr>)\<rparr>))"
proof -
  have "arena_alloc_loop s (head a) n = Some (Inr (Some (bytes r + count r,
           s\<lparr>regions := (regions s)(head a \<mapsto>
             r\<lparr>count := count r + n, remaining := remaining r - n\<rparr>)\<rparr>)))"
    using assms(3-5) by (subst arena_alloc_loop.simps) simp
  then show ?thesis
    using assms(1-3) by (simp add: arena_alloc_def)
qed

lemma allocs_from_head:
  assumes "arena \<noteq> NULL" and "arenas s arena = Some a" and "head a \<noteq> NULL"
    and "regions s (head a) = Some r"
    and "sum_list (map (\<lambda>(k, n). unat n) reqs) \<le> unat (remaining r)"
  shows "\<exists>ptrs s'. run arena (map (\<lambda>(k, n). Alloc k n) reqs) s = Some (Inr (ptrs, s')) \<and>
           length ptrs = length reqs \<and> mmap_calls s' = mmap_calls s"
  using assms(2,4,5)
proof (induction reqs arbitrary: s r)
  case Nil
  then show ?case by simp
next
  case (Cons req reqs)
  obtain k n where req: "req = (k, n)"
    by (cases req)
  from Cons.prems(3) req have le: "unat n \<le> unat (remaining r)"
    and rest: "sum_list (map (\<lambda>(k, n). unat n) reqs) \<le> unat (remaining r) - unat n"
    by simp_all
  from le have n: "n \<le> remaining r"
    by (simp add: word_le_nat_alt)
  define r' where "r' = r\<lparr>count := count r + n, remaining := remaining r - n\<rparr>"
  define s1 where "s1 = s\<lparr>regions := (regions s)(head a \<mapsto> r')\<rparr>"
  have al: "arena_alloc k arena n s = Some (Inr (bytes r + count r, s1))"
    unfolding s1_def r'_def
    using assms(1) Cons.prems(1) assms(3) Cons.prems(2) n by (rule arena_alloc_head)
  have "unat (remaining r') = unat (remaining r) - unat n"
    using n by (simp add: r'_def unat_sub)
  with rest have "sum_list (map (\<lambda>(k, n). unat n) reqs) \<le> unat (remaining r')"
    by simp
  moreover have "arenas s1 arena = Some a" "regions s1 (head a) = Some r'"
    using Cons.prems(1) by (simp_all add: s1_def)
  ultimately obtain ptrs s' where
    "run arena (map (\<lambda>(k, n). Alloc k n) reqs) s1 = Some (Inr (ptrs, s'))"
    "length ptrs = length reqs" "mmap_calls s' = mmap_calls s1"
    using Cons.IH by blast
  with al req show ?case
    by (simp add: s1_def)
qed

text \<open>
  C9. Right after \<open>arena_init\<close>, a sequence of \<open>arena_alloc\<close> calls whose sizes sum to at
  most the capacity of the initial region returns from every call without a call of
  \<open>mmap\<close>: the count of \<open>mmap\<close> calls stays where \<open>arena_init\<close> left it, whatever the kernel
  would have answered.
\<close>

theorem allocs_within_initial_capacity:
  assumes "arena \<noteq> NULL" and "arenas s arena = Some a" and "m \<noteq> NULL"
    and "arena_init m arena n0 s = Inr s1" and "regions s1 m = Some r"
    and "sum_list (map (\<lambda>(k, n). unat n) reqs) \<le> unat (capacity r)"
  shows "\<exists>ptrs s'. run arena (map (\<lambda>(k, n). Alloc k n) reqs) s1 = Some (Inr (ptrs, s')) \<and>
           length ptrs = length reqs \<and> mmap_calls s' = mmap_calls s1 \<and>
           mmap_calls s1 = Suc (mmap_calls s)"
proof -
  from assms(2,4,5) have s1: "arenas s1 arena = Some \<lparr>head = m, tail = m\<rparr>"
    "remaining r = capacity r" "mmap_calls s1 = Suc (mmap_calls s)"
    by (auto simp: arena_init_def arena__new__region_def mmap_def Let_def split: if_splits)
  have "\<exists>ptrs s'. run arena (map (\<lambda>(k, n). Alloc k n) reqs) s1 = Some (Inr (ptrs, s')) \<and>
           length ptrs = length reqs \<and> mmap_calls s' = mmap_calls s1"
    using assms(1) s1(1)
  proof (rule allocs_from_head)
    show "head \<lparr>head = m, tail = m\<rparr> \<noteq> NULL"
      using assms(3) by simp
    show "regions s1 (head \<lparr>head = m, tail = m\<rparr>) = Some r"
      using assms(5) by simp
    show "sum_list (map (\<lambda>(k, n). unat n) reqs) \<le> unat (remaining r)"
      using assms(6) s1(2) by simp
  qed
  with s1(3) show ?thesis
    by blast
qed

theorem allocs_within_initial_capacity_witness:
  "\<exists>ptrs s'. run 0x1000 [Alloc MAP_FAILED 4000, Alloc MAP_FAILED 0, Alloc MAP_FAILED 56] one_region
      = Some (Inr (ptrs, s')) \<and> length ptrs = 3 \<and> mmap_calls s' = 1"
  using allocs_within_initial_capacity [of "0x1000" "process 4096 0x1000"
      "\<lparr>head = NULL, tail = NULL\<rparr>" "0x7000" 1 one_region
      "\<lparr>next = NULL, capacity = 4056, count = 0, remaining = 4056, bytes = 0x7028\<rparr>"
      "[(MAP_FAILED, 4000), (MAP_FAILED, 0), (MAP_FAILED, 56)]"]
  by (simp add: arena_init_process del: run.simps)
    (simp add: process_def one_region_def numeral_3_eq_3 del: run.simps)

section \<open>Bytes and headers\<close>

lemma get_set_same: "j < 8 \<Longrightarrow> get_byte (set_byte w j v) j = v"
  by (rule bit_word_eqI) (auto simp: get_byte_def set_byte_def bit_simps)

lemma get_set_other:
  "j < 8 \<Longrightarrow> j' < 8 \<Longrightarrow> j \<noteq> j' \<Longrightarrow> get_byte (set_byte w j v) j' = get_byte w j'"
  by (rule bit_word_eqI)
    (auto simp: get_byte_def set_byte_def bit_simps dest: bit_imp_le_length)

lemma word_eq_bytes:
  assumes "\<And>j. j < 8 \<Longrightarrow> get_byte w j = get_byte w' j"
  shows "w = w'"
proof (rule bit_word_eqI)
  fix n assume n: "n < LENGTH(64)"
  then have "n div 8 < 8" by simp
  from assms [OF this]
  have "bit (get_byte w (n div 8)) (n mod 8) = bit (get_byte w' (n div 8)) (n mod 8)"
    by simp
  then show "bit w n = bit w' n"
    using n by (simp add: get_byte_def bit_simps)
qed

lemma header_byte_update_same:
  "k < 40 \<Longrightarrow> header_byte (header_update r k v) k = v"
  by (auto simp: header_byte_def header_update_def get_set_same)

lemma header_byte_update_other:
  "k < 40 \<Longrightarrow> k' < 40 \<Longrightarrow> k \<noteq> k' \<Longrightarrow> header_byte (header_update r k v) k' = header_byte r k'"
  by (auto simp: header_byte_def header_update_def get_set_other)

lemma region_eq_bytes:
  fixes r r' :: Region
  assumes "\<And>k. k < 40 \<Longrightarrow> header_byte r k = header_byte r' k"
  shows "r = r'"
proof (rule Region.equality)
  show "next r = next r'"
  proof (rule word_eq_bytes)
    fix j :: nat assume "j < 8"
    with assms [of j] show "get_byte (next r) j = get_byte (next r') j"
      by (simp add: header_byte_def)
  qed
  show "capacity r = capacity r'"
  proof (rule word_eq_bytes)
    fix j :: nat assume "j < 8"
    with assms [of "8 + j"] show "get_byte (capacity r) j = get_byte (capacity r') j"
      by (simp add: header_byte_def)
  qed
  show "count r = count r'"
  proof (rule word_eq_bytes)
    fix j :: nat assume "j < 8"
    with assms [of "16 + j"] show "get_byte (count r) j = get_byte (count r') j"
      by (simp add: header_byte_def)
  qed
  show "remaining r = remaining r'"
  proof (rule word_eq_bytes)
    fix j :: nat assume "j < 8"
    with assms [of "24 + j"] show "get_byte (remaining r) j = get_byte (remaining r') j"
      by (simp add: header_byte_def)
  qed
  show "bytes r = bytes r'"
  proof (rule word_eq_bytes)
    fix j :: nat assume "j < 8"
    with assms [of "32 + j"] show "get_byte (bytes r) j = get_byte (bytes r') j"
      by (simp add: header_byte_def)
  qed
qed simp

lemma unat_region_size [simp]: "unat ARENA_REGION_SIZE = 40"
  by (simp add: ARENA_REGION_SIZE_def)

lemma header_at_SomeD:
  assumes "header_at s a = Some p"
  shows "regions s p \<noteq> None" and "unat (a - p) < 40"
proof -
  from assms obtain k where k: "k < 40" "p = a - of_nat k" "regions s p \<noteq> None"
    by (auto simp: header_at_def find_Some_iff)
  then have "a - p = of_nat k"
    by simp
  with k(1) have "unat (a - p) = k"
    by (simp add: unat_of_nat)
  with k show "regions s p \<noteq> None" and "unat (a - p) < 40"
    by simp_all
qed

lemma header_at_cong:
  assumes "\<And>p. (regions s' p = None) = (regions s p = None)"
  shows "header_at s' a = header_at s a"
  using assms by (simp add: header_at_def)

lemma header_at_None_iff:
  "header_at s a = None \<longleftrightarrow> (\<forall>w<40. regions s (a - w) = None)"
proof
  assume h: "header_at s a = None"
  show "\<forall>w<40. regions s (a - w) = None"
  proof (intro allI impI)
    fix w :: "64 word" assume "w < 40"
    then have "unat w < 40"
      by (simp add: word_less_nat_alt)
    moreover from h have "\<forall>k\<in>{0..<40}. regions s (a - of_nat k) = None"
      by (simp add: header_at_def find_None_iff)
    ultimately have "regions s (a - of_nat (unat w)) = None"
      by (simp del: word_of_nat_eq_iff of_nat_unat)
    then show "regions s (a - w) = None"
      by simp
  qed
next
  assume h: "\<forall>w<40. regions s (a - w) = None"
  have "regions s (a - of_nat k) = None" if "k < 40" for k
  proof -
    from that have "(of_nat k :: 64 word) < 40"
      by (simp add: word_less_nat_alt unat_of_nat)
    with h show ?thesis by blast
  qed
  then show "header_at s a = None"
    by (auto simp: header_at_def find_None_iff)
qed

lemma header_at_base:
  assumes "regions s p \<noteq> None" and "w < 40"
    and "\<And>u. 0 < u \<Longrightarrow> u < 40 \<Longrightarrow> regions s (p + u) = None"
  shows "header_at s (p + w) = Some p"
proof -
  let ?xs = "map (\<lambda>k. p + w - of_nat k) [0..<unat ARENA_REGION_SIZE]"
  have w: "unat w < 40"
    using assms(2) by (simp add: word_less_nat_alt)
  have "\<exists>i<length ?xs. regions s (?xs ! i) \<noteq> None \<and> p = ?xs ! i \<and>
          (\<forall>j<i. \<not> regions s (?xs ! j) \<noteq> None)"
  proof (intro exI conjI allI impI)
    show "unat w < length ?xs"
      using w by simp
    show "p = ?xs ! unat w"
      using w by simp
    then show "regions s (?xs ! unat w) \<noteq> None"
      using assms(1) by simp
    fix j assume j: "j < unat w"
    let ?u = "w - of_nat j"
    have jw: "(of_nat j :: 64 word) < w"
      using j w by (simp add: word_less_nat_alt unat_of_nat)
    then have "0 < ?u" "?u < 40"
      using assms(2) by unat_arith+
    then have "regions s (p + ?u) = None"
      by (rule assms(3))
    moreover have "?xs ! j = p + ?u"
      using j w by simp
    ultimately show "\<not> regions s (?xs ! j) \<noteq> None"
      by simp
  qed
  then show ?thesis
    unfolding header_at_def find_Some_iff by blast
qed

lemma unat_add_small:
  fixes c i :: "64 word"
  assumes "unat c + unat i < 2 ^ 64"
  shows "unat (c + i) = unat c + unat i"
  using assms by (simp add: unat_add_lem [THEN iffD1])

lemma header_at_far:
  assumes "\<And>p. regions s p \<noteq> None \<Longrightarrow> 40 \<le> unat (a - p)"
  shows "header_at s a = None"
  unfolding header_at_None_iff
proof (intro allI impI)
  fix w :: "64 word" assume w: "w < 40"
  show "regions s (a - w) = None"
  proof (rule ccontr)
    assume "regions s (a - w) \<noteq> None"
    from assms [OF this] w show False
      by (simp add: word_less_nat_alt)
  qed
qed

lemma load_byte_header:
  assumes "regions s p = Some r" and "w < 40"
    and "\<And>u. 0 < u \<Longrightarrow> u < 40 \<Longrightarrow> regions s (p + u) = None"
  shows "load_byte s (p + w) = header_byte r (unat w)"
proof -
  have "header_at s (p + w) = Some p"
    using assms by (intro header_at_base) simp_all
  with assms(1) show ?thesis
    by (simp add: load_byte_def)
qed

lemma region_eq_bytes_word:
  fixes r r' :: Region
  assumes "\<And>w :: 64 word. w < 40 \<Longrightarrow> header_byte r (unat w) = header_byte r' (unat w)"
  shows "r = r'"
proof (rule region_eq_bytes)
  fix k :: nat assume k: "k < 40"
  then have "(of_nat k :: 64 word) < 40" "unat (of_nat k :: 64 word) = k"
    by (simp_all add: word_less_nat_alt unat_of_nat)
  with assms [of "of_nat k"] show "header_byte r k = header_byte r' k"
    by simp
qed

lemma get_byte_0 [simp]: "get_byte 0 j = 0"
  by (simp add: get_byte_def)

lemma store_byte_dom:
  "(regions (store_byte s a v) p = None) = (regions s p = None)"
  by (auto simp: store_byte_def split: option.splits dest: header_at_SomeD)

lemma store_byte_frame [simp]:
  "arenas (store_byte s a v) = arenas s"
  "page_size (store_byte s a v) = page_size s"
  "mmap_calls (store_byte s a v) = mmap_calls s"
  by (simp_all add: store_byte_def split: option.splits)

lemma header_at_store_byte [simp]:
  "header_at (store_byte s a v) b = header_at s b"
  by (rule header_at_cong) (rule store_byte_dom)


lemma load_store_byte:
  "load_byte (store_byte s a v) b = (if b = a then v else load_byte s b)"
proof (cases "header_at s a")
  case None
  then have st: "store_byte s a v = s\<lparr>mem := (mem s)(a := v)\<rparr>"
    by (simp add: store_byte_def)
  show ?thesis
  proof (cases "b = a")
    case True
    with None show ?thesis
      using header_at_store_byte [of s a v a] by (simp add: load_byte_def st)
  next
    case False
    have "header_at (s\<lparr>mem := (mem s)(a := v)\<rparr>) b = header_at s b"
      using header_at_store_byte [of s a v b] by (simp add: st)
    with False show ?thesis
      by (simp add: load_byte_def st split: option.splits)
  qed
next
  case (Some p)
  then obtain r where r: "regions s p = Some r" and k: "unat (a - p) < 40"
    using header_at_SomeD [OF Some] by auto
  let ?r = "header_update r (unat (a - p)) v"
  have st: "store_byte s a v = s\<lparr>regions := (regions s)(p \<mapsto> ?r)\<rparr>"
    using Some r by (simp add: store_byte_def)
  have hb: "header_at (s\<lparr>regions := (regions s)(p \<mapsto> ?r)\<rparr>) b = header_at s b"
    using header_at_store_byte [of s a v b] by (simp add: st)
  show ?thesis
  proof (cases "header_at s b")
    case None
    with Some have "b \<noteq> a" by auto
    with None hb show ?thesis
      by (simp add: load_byte_def st)
  next
    case q: (Some q)
    then obtain k': "unat (b - q) < 40" and rq: "regions s q \<noteq> None"
      using header_at_SomeD [OF q] by auto
    show ?thesis
    proof (cases "q = p")
      case True
      show ?thesis
      proof (cases "b = a")
        case True
        with \<open>q = p\<close> q hb k show ?thesis
          by (simp add: load_byte_def st header_byte_update_same)
      next
        case False
        then have "unat (a - p) \<noteq> unat (b - p)"
          by (simp add: word_unat_eq_iff [symmetric])
        with False \<open>q = p\<close> q hb k k' r show ?thesis
          by (simp add: load_byte_def st header_byte_update_other)
      qed
    next
      case False
      with q Some have "b \<noteq> a" by auto
      with False q hb show ?thesis
        by (simp add: load_byte_def st split: option.splits)
    qed
  qed
qed

lemma word_inc_le:
  fixes i k n :: "64 word"
  assumes "i < n"
  shows "(i + 1 \<le> k) = (i < k)"
  using assms by unat_arith

lemma arena_realloc_loop_dom:
  "(regions (arena_realloc_loop np op n i s) p = None) = (regions s p = None)"
proof (induction np op n i s rule: arena_realloc_loop.induct)
  case (1 new_ptr old_ptr old_size i s)
  then show ?case
    by (subst arena_realloc_loop.simps) (simp add: store_byte_dom)
qed

lemma arena_realloc_loop_frame:
  "arenas (arena_realloc_loop np op n i s) = arenas s \<and>
   page_size (arena_realloc_loop np op n i s) = page_size s \<and>
   mmap_calls (arena_realloc_loop np op n i s) = mmap_calls s"
proof (induction np op n i s rule: arena_realloc_loop.induct)
  case (1 new_ptr old_ptr old_size i s)
  then show ?case
    by (subst (1 2 3) arena_realloc_loop.simps) simp
qed


lemma arena_realloc_loop_outside:
  assumes "\<forall>k<n. a \<noteq> np + k"
  shows "load_byte (arena_realloc_loop np op n i s) a = load_byte s a"
  using assms
proof (induction np op n i s rule: arena_realloc_loop.induct)
  case (1 new_ptr old_ptr old_size i s)
  then show ?case
    by (subst arena_realloc_loop.simps) (simp add: load_store_byte)
qed

lemma arena_realloc_loop_copy:
  assumes "\<forall>i<n. \<forall>j<n. np + i \<noteq> op + j" and "k < n"
  shows "load_byte (arena_realloc_loop np op n i s) (np + k) =
           (if i \<le> k then load_byte s (op + k) else load_byte s (np + k))"
  using assms
proof (induction np op n i s rule: arena_realloc_loop.induct)
  case (1 new_ptr old_ptr old_size i s)
  show ?case
  proof (cases "i < old_size")
    case True
    let ?s = "store_byte s (new_ptr + i) (load_byte s (old_ptr + i))"
    have "load_byte (arena_realloc_loop new_ptr old_ptr old_size i s) (new_ptr + k)
        = load_byte (arena_realloc_loop new_ptr old_ptr old_size (i + 1) ?s) (new_ptr + k)"
      using True by (subst arena_realloc_loop.simps) simp
    also have "\<dots> = (if i + 1 \<le> k then load_byte ?s (old_ptr + k) else load_byte ?s (new_ptr + k))"
      using True "1.prems" by (rule "1.IH")
    also have "\<dots> = (if i \<le> k then load_byte s (old_ptr + k) else load_byte s (new_ptr + k))"
    proof -
      have "new_ptr + i \<noteq> old_ptr + k"
        using "1.prems" True by blast
      then have a: "load_byte ?s (old_ptr + k) = load_byte s (old_ptr + k)"
        by (auto simp: load_store_byte)
      have b: "load_byte ?s (new_ptr + k)
                 = (if k = i then load_byte s (old_ptr + i) else load_byte s (new_ptr + k))"
        by (simp add: load_store_byte)
      show ?thesis
        unfolding a b word_inc_le [OF True] by auto
    qed
    finally show ?thesis .
  next
    case False
    with "1.prems" have "\<not> i \<le> k"
      by auto
    with False show ?thesis
      by (subst arena_realloc_loop.simps) simp
  qed
qed

section \<open>Reallocation\<close>




lemma load_byte_data:
  "header_at s a = None \<Longrightarrow> load_byte s a = mem s a"
  by (simp add: load_byte_def)



section \<open>The region invariant and \<open>arena_realloc\<close>\<close>

text \<open>
  C3. The invariant does not survive every \<open>arena_realloc\<close>. With 4096-byte pages, let the
  kernel map the region of \<open>arena_init(&arena, 9000)\<close> at \<open>0x9000\<close> and the next mapping
  just below it, at \<open>0x7000\<close>. \<open>p = arena_alloc(&arena, 8176)\<close> leaves the head region with
  \<open>count = 8176\<close> and \<open>remaining = 4072\<close>. \<open>arena_realloc(&arena, p, 8176, 8176)\<close> finds no
  room, appends a region of 8192 mapped bytes, whose buffer holds 8152, and copies 8176
  bytes to its start: the last 24 land on \<open>next\<close>, \<open>capacity\<close> and \<open>count\<close> of the head
  region. All three calls return; the head region ends with \<open>capacity = 0\<close>, \<open>count = 0\<close>
  and \<open>remaining = 4072\<close>.
\<close>

theorem realloc_overruns_head_region:
  "kernel_ok 0x1000 [Init 0x9000 9000, Alloc 0x7000 8176, Realloc 0x7000 0x9028 8176 8176]
     (process 4096 0x1000) \<and>
   map_option (map_sum id (\<lambda>(ptrs, s). (ptrs, arenas s 0x1000, regions s 0x9000)))
     (run 0x1000 [Init 0x9000 9000, Alloc 0x7000 8176, Realloc 0x7000 0x9028 8176 8176]
        (process 4096 0x1000))
     = Some (Inr ([0x9028, 0x7028], Some \<lparr>head = 0x9000, tail = 0x7000\<rparr>,
         Some \<lparr>next = NULL, capacity = 0, count = 0, remaining = 4072, bytes = 0x9028\<rparr>)) \<and>
   \<not> region_ok \<lparr>next = NULL, capacity = 0, count = 0, remaining = 4072, bytes = 0x9028\<rparr>"
proof -
  let ?cs = "[Init 0x9000 9000, Alloc 0x7000 8176, Realloc 0x7000 0x9028 8176 8176]"
  define r1 :: Region where
    "r1 = \<lparr>next = 0x7000, capacity = 12248, count = 8176, remaining = 4072, bytes = 0x9028\<rparr>"
  define r2 :: Region where
    "r2 = \<lparr>next = NULL, capacity = 8152, count = 0, remaining = 8152, bytes = 0x7028\<rparr>"
  define s2 :: state where
    "s2 = \<lparr>page_size = 4096, arenas = [0x1000 \<mapsto> \<lparr>head = 0x9000, tail = 0x7000\<rparr>],
           regions = [0x7000 \<mapsto> r2, 0x9000 \<mapsto> r1], mem = (\<lambda>_. 0),
           mmap_calls = Suc (Suc 0)\<rparr>"
  define s3 where "s3 = arena_realloc_loop 0x7028 0x9028 8176 0 s2"
  define r0 :: Region where
    "r0 = \<lparr>next = NULL, capacity = 0, count = 0, remaining = 4072, bytes = 0x9028\<rparr>"
  have run: "run 0x1000 ?cs (process 4096 0x1000) = Some (Inr ([0x9028, 0x7028], s3))"
    by (simp add: arena_defs process_def arena_alloc_loop.simps arena_realloc_def
        s3_def s2_def r1_def r2_def)
  have k: "kernel_ok 0x1000 ?cs (process 4096 0x1000)"
    by (simp add: arena_defs process_def arena_alloc_loop.simps arena_realloc_def fresh_def)
  have dom2: "p = 0x7000 \<or> p = 0x9000" if "regions s2 p \<noteq> None" for p
    using that by (simp add: s2_def split: if_splits)
  have dom3: "(regions s3 p = None) = (regions s2 p = None)" for p
    unfolding s3_def by (rule arena_realloc_loop_dom)
  have a3: "arenas s3 = arenas s2"
    unfolding s3_def by (simp add: arena_realloc_loop_frame)
  have reg1: "regions s2 0x9000 = Some r1"
    by (simp add: s2_def)
  then obtain r' where r': "regions s3 0x9000 = Some r'"
    using dom3 [of "0x9000"] by (cases "regions s3 0x9000") auto
  have gap2: "regions s2 (0x9000 + u) = None" if "0 < u" "u < 40" for u
  proof (rule ccontr)
    assume "regions s2 (0x9000 + u) \<noteq> None"
    from dom2 [OF this] that show False
      by (auto simp: word_less_nat_alt word_unat_eq_iff unat_add_small)
  qed
  then have gap3: "regions s3 (0x9000 + u) = None" if "0 < u" "u < 40" for u
    using that dom3 by simp
  have disj: "\<forall>i<8176. \<forall>j<8176. (0x7028 :: ptr) + i \<noteq> 0x9028 + j"
    by (auto simp: word_less_nat_alt word_unat_eq_iff unat_add_small)
  have bytes: "header_byte r' (unat w) = header_byte r0 (unat w)" if w: "w < 40" for w :: ptr
  proof -
    have l3: "load_byte s3 (0x9000 + w) = header_byte r' (unat w)"
      using r' w gap3 by (rule load_byte_header)
    show ?thesis
    proof (cases "w < 24")
      case True
      then have lt: "8152 + w < 8176"
        by (simp add: word_less_nat_alt unat_add_small)
      have "load_byte s3 (0x7028 + (8152 + w)) = load_byte s2 (0x9028 + (8152 + w))"
        unfolding s3_def using arena_realloc_loop_copy [OF disj lt, of 0 s2] by simp
      moreover have "header_at s2 (0x9028 + (8152 + w)) = None"
      proof (rule header_at_far)
        fix p assume "regions s2 p \<noteq> None"
        from dom2 [OF this] True show "40 \<le> unat (0x9028 + (8152 + w) - p)"
          by (auto simp: word_less_nat_alt unat_add_small)
      qed
      ultimately have "load_byte s3 (0x9000 + w) = 0"
        by (simp add: load_byte_data s2_def)
      moreover from True have "unat w < 24"
        by (simp add: word_less_nat_alt)
      ultimately show ?thesis
        using l3 by (simp add: header_byte_def r0_def)
    next
      case False
      then have ge: "24 \<le> unat w" and lt: "unat w < 40"
        using w by (simp_all add: word_less_nat_alt)
      have "\<forall>i<8176. 0x9000 + w \<noteq> (0x7028 :: ptr) + i"
        using ge lt by (auto simp: word_less_nat_alt word_unat_eq_iff unat_add_small)
      then have "load_byte s3 (0x9000 + w) = load_byte s2 (0x9000 + w)"
        unfolding s3_def by (rule arena_realloc_loop_outside)
      also have "\<dots> = header_byte r1 (unat w)"
        using reg1 w gap2 by (rule load_byte_header)
      finally show ?thesis
        using l3 ge by (simp add: header_byte_def r0_def r1_def)
    qed
  qed
  have "r' = r0"
    using bytes by (rule region_eq_bytes_word)
  with r' have "regions s3 0x9000 = Some r0"
    by simp
  moreover have "arenas s3 0x1000 = Some \<lparr>head = 0x9000, tail = 0x7000\<rparr>"
    by (simp add: a3 s2_def)
  moreover have "\<not> region_ok r0"
    by (simp add: region_ok_def r0_def)
  ultimately show ?thesis
    using run k by (simp add: r0_def)
qed

end
